theory Spec2Isabelle
  imports Main "HOL-Library.Multiset"
begin

section \<open>Values, the peer connection and tasks\<close>

text \<open>
  The JavaScript values that reach the queue: arguments of the public operations, results
  and errors handed to a continuation, thrown exceptions. \<open>JError m\<close> is an
  \<^verbatim>\<open>Error\<close> object with message \<open>m\<close>; \<open>JObj\<close> is a plain object, its
  properties in an association list.
\<close>

datatype jsval =
    Undefined
  | Null
  | JBool bool
  | JNum int
  | JStr string
  | JError string
  | JObj "(string \<times> jsval) list"

text \<open>Truthiness, as \<^verbatim>\<open>if (v)\<close>, \<^verbatim>\<open>!v\<close> and \<^verbatim>\<open>a && b\<close> test it.\<close>

fun truthy :: "jsval \<Rightarrow> bool" where
  "truthy Undefined = False"
| "truthy Null = False"
| "truthy (JBool b) = b"
| "truthy (JNum n) = (n \<noteq> 0)"
| "truthy (JStr s) = (s \<noteq> [])"
| "truthy (JError m) = True"
| "truthy (JObj ps) = True"

text \<open>
  Reading a property \<^verbatim>\<open>v.k\<close>: on \<^verbatim>\<open>undefined\<close> and \<^verbatim>\<open>null\<close>
  the read throws a TypeError (\<open>None\<close>); on an object it gives the property or
  \<^verbatim>\<open>undefined\<close>; the primitives have none of the properties the queue reads.
\<close>

fun getProp :: "jsval \<Rightarrow> string \<Rightarrow> jsval option" where
  "getProp Undefined k = None"
| "getProp Null k = None"
| "getProp (JObj ps) k = Some (case map_of ps k of None \<Rightarrow> Undefined | Some v \<Rightarrow> v)"
| "getProp v k = Some Undefined"

text \<open>
  The managed \<^verbatim>\<open>RTCPeerConnection\<close>, as far as the queue reads it: the signaling
  state, the two descriptions (\<^verbatim>\<open>null\<close> until set) and the names of the properties
  that hold a function.
\<close>

record pc_state =
  signalingState :: string
  localDescription :: jsval
  remoteDescription :: jsval
  methods :: "string list"

text \<open>The readiness checks of lines 190 to 204.\<close>

datatype check = HasLocalOrRemoteDescription | IsNotNegotiating | IsNotClosed | IsStable

definition hasLocalOrRemoteDescription :: "pc_state \<Rightarrow> bool" where
  "hasLocalOrRemoteDescription pc \<longleftrightarrow> localDescription pc \<noteq> Null \<or> remoteDescription pc \<noteq> Null"

definition isNotNegotiating :: "pc_state \<Rightarrow> bool" where
  "isNotNegotiating pc \<longleftrightarrow> signalingState pc \<noteq> ''have-local-offer''"

definition isNotClosed :: "pc_state \<Rightarrow> bool" where
  "isNotClosed pc \<longleftrightarrow> signalingState pc \<noteq> ''closed''"

definition isStable :: "pc_state \<Rightarrow> bool" where
  "isStable pc \<longleftrightarrow> signalingState pc = ''stable''"

fun runCheck :: "check \<Rightarrow> pc_state \<Rightarrow> bool" where
  "runCheck HasLocalOrRemoteDescription pc = hasLocalOrRemoteDescription pc"
| "runCheck IsNotNegotiating pc = isNotNegotiating pc"
| "runCheck IsNotClosed pc = isNotClosed pc"
| "runCheck IsStable pc = isStable pc"

text \<open>The two execution strategies and the three pass handlers the file registers.\<close>

datatype strategy = ApplyCandidate | ExecMethod

datatype handler = EmitSdp | CompleteConnection | TqSetLocalDescription

text \<open>The object literal that \<^verbatim>\<open>enqueue\<close> pushes (lines 157 to 169).\<close>

record task =
  args :: "jsval list"
  name :: string
  fn :: strategy
  checks :: "check list"
  pass :: "handler option"
  fail :: "handler option"

section \<open>Readiness and the comparator\<close>

definition PRIORITY_LOW :: int where
  "PRIORITY_LOW = 100"

definition PRIORITY_WAIT :: int where
  "PRIORITY_WAIT = 1000"

definition DEFAULT_PRIORITIES :: "string list" where
  "DEFAULT_PRIORITIES =
     [''candidate'', ''setLocalDescription'', ''setRemoteDescription'', ''createAnswer'',
      ''createOffer'']"

text \<open>\<^verbatim>\<open>testReady\<close>: the reduction of the checks with \<^verbatim>\<open>&&\<close>, from \<^verbatim>\<open>true\<close>.\<close>

definition testReady :: "pc_state \<Rightarrow> task \<Rightarrow> bool" where
  "testReady pc t = foldl (\<lambda>memo c. memo \<and> runCheck c pc) True (checks t)"

text \<open>\<^verbatim>\<open>Array.prototype.indexOf\<close>: the first index holding the element, or -1.\<close>

fun indexFrom :: "'a list \<Rightarrow> 'a \<Rightarrow> int \<Rightarrow> int" where
  "indexFrom [] x i = -1"
| "indexFrom (y # ys) x i = (if y = x then i else indexFrom ys x (i + 1))"

definition indexOf :: "'a list \<Rightarrow> 'a \<Rightarrow> int" where
  "indexOf xs x = indexFrom xs x 0"

text \<open>
  \<^verbatim>\<open>orderTasks\<close> (lines 206 to 217): both tasks are tested for readiness, each is
  paired with its readiness and mapped to a priority, and the result is the second
  priority minus the first.
\<close>

definition orderTasks :: "string list \<Rightarrow> pc_state \<Rightarrow> task \<Rightarrow> task \<Rightarrow> int" where
  "orderTasks priorities pc a b =
     (let tasks = [a, b];
          readiness = map (testReady pc) tasks;
          taskPriorities =
            map (\<lambda>(t, r). let priority = indexOf priorities (name t)
                          in if r then (if priority \<ge> 0 then priority else PRIORITY_LOW)
                             else PRIORITY_WAIT)
                (zip tasks readiness)
      in taskPriorities ! 1 - taskPriorities ! 0)"

text \<open>The priority that the mapping inside \<^verbatim>\<open>orderTasks\<close> gives one task: its rank.\<close>

definition rank :: "string list \<Rightarrow> pc_state \<Rightarrow> task \<Rightarrow> int" where
  "rank priorities pc t =
     (let priority = indexOf priorities (name t)
      in if testReady pc t then (if priority \<ge> 0 then priority else PRIORITY_LOW)
         else PRIORITY_WAIT)"

section \<open>The priority queue\<close>

text \<open>
  The queue object is the array-backed binary heap of the priorityqueuejs package that
  line 5 requires; the package is a dependency, not a file of this repository. Its array
  \<^verbatim>\<open>_elements\<close> is the list; the element the comparator ranks highest is kept at
  index 0. The comparator is called again at every insertion and removal, never between.
\<close>

definition isEmpty :: "task list \<Rightarrow> bool" where
  "isEmpty es \<longleftrightarrow> es = []"

text \<open>\<^verbatim>\<open>peek\<close> throws on an empty queue: \<open>None\<close>.\<close>

definition peek :: "task list \<Rightarrow> task option" where
  "peek es = (case es of [] \<Rightarrow> None | e # _ \<Rightarrow> Some e)"

definition pq_swap :: "nat \<Rightarrow> nat \<Rightarrow> task list \<Rightarrow> task list" where
  "pq_swap a b es = es[a := es ! b, b := es ! a]"

function siftUp :: "(task \<Rightarrow> task \<Rightarrow> int) \<Rightarrow> nat \<Rightarrow> task list \<Rightarrow> task list" where
  "siftUp cmp current es =
     (if current > 0 then
        (let parent = (current - 1) div 2
         in if cmp (es ! current) (es ! parent) \<le> 0 then es
            else siftUp cmp parent (pq_swap parent current es))
      else es)"
  by pat_completeness auto
termination
  by (relation "measure (\<lambda>(cmp, current, es). current)") auto

definition enq :: "(task \<Rightarrow> task \<Rightarrow> int) \<Rightarrow> task \<Rightarrow> task list \<Rightarrow> task list" where
  "enq cmp element es = siftUp cmp (length es) (es @ [element])"

text \<open>
  One round of the loop in \<^verbatim>\<open>deq\<close> picks, among an index and its two children, the
  index \<^verbatim>\<open>largest\<close>: first the left child is compared with the index, then the right
  child with the winner.
\<close>

definition largestOf :: "(task \<Rightarrow> task \<Rightarrow> int) \<Rightarrow> nat \<Rightarrow> task list \<Rightarrow> nat" where
  "largestOf cmp current es =
     (let size = length es;
          left = 2 * current + 1;
          right = 2 * current + 2;
          largest = (if left < size \<and> cmp (es ! left) (es ! current) \<ge> 0
                     then left else current)
      in if right < size \<and> cmp (es ! right) (es ! largest) \<ge> 0 then right else largest)"

function siftDown :: "(task \<Rightarrow> task \<Rightarrow> int) \<Rightarrow> nat \<Rightarrow> task list \<Rightarrow> task list" where
  "siftDown cmp current es =
     (if current < length es then
        (let largest = largestOf cmp current es
         in if largest = current then es
            else siftDown cmp largest (pq_swap largest current es))
      else es)"
  by pat_completeness auto
termination
  by (relation "measure (\<lambda>(cmp, current, es). length es - current)")
     (auto simp: pq_swap_def largestOf_def Let_def split: if_splits)

text \<open>\<^verbatim>\<open>deq\<close> gives the first element and the remaining queue; on an empty queue it throws.\<close>

definition deq :: "(task \<Rightarrow> task \<Rightarrow> int) \<Rightarrow> task list \<Rightarrow> (task \<times> task list) option" where
  "deq cmp es =
     (case es of
        [] \<Rightarrow> None
      | first # _ \<Rightarrow>
          (let lst = last es; popped = butlast es
           in if popped = [] then Some (first, [])
              else Some (first, siftDown cmp 0 (popped[0 := lst]))))"

section \<open>The scheduler\<close>

text \<open>
  What the queue does to the outside, in order: console output, events emitted on the
  queue object, and calls of an operation of the peer connection.
\<close>

datatype effect =
    ConsoleError jsval
  | ConsoleWarn jsval
  | Emit string "jsval list"
  | PcCall string "jsval list"

text \<open>
  The options and collaborators of one queue: the priority table, the two constructors
  (\<^verbatim>\<open>createIceCandidate\<close>, \<^verbatim>\<open>createSessionDescription\<close>: a plugin's factory or the
  platform constructor; \<open>Inl e\<close> when the call throws \<open>e\<close>), and the connection's
  \<^verbatim>\<open>addIceCandidate\<close> (\<open>Some e\<close> when the call throws \<open>e\<close>).
\<close>

record env =
  priorities :: "string list"
  createIceCandidate :: "jsval \<Rightarrow> jsval + jsval"
  createSessionDescription :: "jsval \<Rightarrow> jsval + jsval"
  pcAddIceCandidate :: "pc_state \<Rightarrow> jsval \<Rightarrow> jsval option"

text \<open>
  The variables of the closure: the connection, the queue, \<^verbatim>\<open>currentTask\<close>
  (\<open>None\<close> for \<^verbatim>\<open>undefined\<close> and \<^verbatim>\<open>null\<close>) and the timeout behind
  \<^verbatim>\<open>checkQueueTimer\<close> (\<open>Some d\<close>: one call of \<^verbatim>\<open>checkQueue\<close> is pending, after
  \<open>d\<close> milliseconds; \<open>None\<close>: none is pending).
\<close>

record state =
  pc :: pc_state
  queue :: "task list"
  currentTask :: "task option"
  checkQueueTimer :: "nat option"
  effects :: "effect list"

text \<open>
  A function that may throw returns the state it leaves and the exception, if any.
  What a strategy did with its continuation \<^verbatim>\<open>next\<close>: threw before calling it, called
  it with these arguments, or handed it to the connection, which calls it later.
\<close>

datatype outcome = Threw jsval | Called "jsval list" | Awaiting

definition log :: "effect \<Rightarrow> state \<Rightarrow> state" where
  "log e st = st\<lparr>effects := effects st @ [e]\<rparr>"

text \<open>
  \<^verbatim>\<open>triggerQueueCheck\<close>: the pending timeout is cleared and one is set after
  \<^verbatim>\<open>wait || 5\<close> milliseconds.
\<close>

definition triggerQueueCheck :: "nat option \<Rightarrow> state \<Rightarrow> state" where
  "triggerQueueCheck wait st =
     st\<lparr>checkQueueTimer := Some (case wait of None \<Rightarrow> 5 | Some w \<Rightarrow> if w = 0 then 5 else w)\<rparr>"

text \<open>\<^verbatim>\<open>args.map(f)\<close> with an \<open>f\<close> that may throw: the first exception ends the map.\<close>

fun mapThrow :: "('a \<Rightarrow> 'e + 'b) \<Rightarrow> 'a list \<Rightarrow> 'e + 'b list" where
  "mapThrow f [] = Inr []"
| "mapThrow f (x # xs) =
     (case f x of
        Inl e \<Rightarrow> Inl e
      | Inr y \<Rightarrow> (case mapThrow f xs of Inl e \<Rightarrow> Inl e | Inr ys \<Rightarrow> Inr (y # ys)))"

text \<open>The third argument of \<^verbatim>\<open>enqueue\<close>; absent checks are the empty list.\<close>

record opts =
  opt_checks :: "check list"
  opt_processArgs :: "(jsval \<Rightarrow> jsval + jsval) option"
  opt_pass :: "handler option"
  opt_fail :: "handler option"

text \<open>
  The function that \<^verbatim>\<open>enqueue(name, handler, opts)\<close> returns (lines 148 to 173).
  \<open>newTask\<close> is its first half: the arguments are copied, mapped through
  \<^verbatim>\<open>processArgs\<close> when there is one, and put into the task object.
\<close>

definition newTask :: "string \<Rightarrow> strategy \<Rightarrow> opts \<Rightarrow> jsval list \<Rightarrow> jsval + task" where
  "newTask nm handler os arguments =
     (case (case opt_processArgs os of
              None \<Rightarrow> Inr arguments
            | Some f \<Rightarrow> mapThrow f arguments) of
        Inl e \<Rightarrow> Inl e
      | Inr as \<Rightarrow>
          Inr \<lparr>args = as, name = nm, fn = handler, checks = opt_checks os,
               pass = opt_pass os, fail = opt_fail os\<rparr>)"

definition enqueue ::
  "env \<Rightarrow> string \<Rightarrow> strategy \<Rightarrow> opts \<Rightarrow> jsval list \<Rightarrow> state \<Rightarrow> state \<times> jsval option" where
  "enqueue env nm handler os arguments st =
     (case newTask nm handler os arguments of
        Inl e \<Rightarrow> (st, Some e)
      | Inr t \<Rightarrow>
          (triggerQueueCheck None
             (st\<lparr>queue := enq (orderTasks (priorities env) (pc st)) t (queue st)\<rparr>),
           None))"

text \<open>
  The five public operations (lines 232 to 254): the name, the strategy and the options
  each is registered with.
\<close>

datatype operation = AddIceCandidate | SetLocalDescription | SetRemoteDescription
  | CreateOffer | CreateAnswer

fun registration :: "env \<Rightarrow> operation \<Rightarrow> string \<times> strategy \<times> opts" where
  "registration env AddIceCandidate =
     (''addIceCandidate'', ApplyCandidate,
      \<lparr>opt_checks = [HasLocalOrRemoteDescription], opt_processArgs = None,
       opt_pass = None, opt_fail = None\<rparr>)"
| "registration env SetLocalDescription =
     (''setLocalDescription'', ExecMethod,
      \<lparr>opt_checks = [], opt_processArgs = None, opt_pass = Some EmitSdp, opt_fail = None\<rparr>)"
| "registration env SetRemoteDescription =
     (''setRemoteDescription'', ExecMethod,
      \<lparr>opt_checks = [IsNotClosed], opt_processArgs = Some (createSessionDescription env),
       opt_pass = Some CompleteConnection, opt_fail = None\<rparr>)"
| "registration env CreateOffer =
     (''createOffer'', ExecMethod,
      \<lparr>opt_checks = [IsNotClosed, IsNotNegotiating], opt_processArgs = None,
       opt_pass = Some TqSetLocalDescription, opt_fail = None\<rparr>)"
| "registration env CreateAnswer =
     (''createAnswer'', ExecMethod,
      \<lparr>opt_checks = [IsNotClosed], opt_processArgs = None,
       opt_pass = Some TqSetLocalDescription, opt_fail = None\<rparr>)"

definition tq :: "env \<Rightarrow> operation \<Rightarrow> jsval list \<Rightarrow> state \<Rightarrow> state \<times> jsval option" where
  "tq env f = (case registration env f of (nm, handler, os) \<Rightarrow> enqueue env nm handler os)"

text \<open>The task that a call of a public operation builds, or the exception it throws.\<close>

definition taskFor :: "env \<Rightarrow> operation \<Rightarrow> jsval list \<Rightarrow> jsval + task" where
  "taskFor env f = (case registration env f of (nm, handler, os) \<Rightarrow> newTask nm handler os)"

text \<open>
  The handlers: \<^verbatim>\<open>emitSdp\<close>, \<^verbatim>\<open>completeConnection\<close> and
  \<^verbatim>\<open>tq.setLocalDescription\<close>, called with the given arguments.
\<close>

fun runHandler :: "env \<Rightarrow> handler \<Rightarrow> jsval list \<Rightarrow> state \<Rightarrow> state \<times> jsval option" where
  "runHandler env EmitSdp as st = (log (Emit ''sdp'' [localDescription (pc st)]) st, None)"
| "runHandler env CompleteConnection as st =
     (if signalingState (pc st) = ''have-remote-offer'' then tq env CreateAnswer [] st
      else (st, None))"
| "runHandler env TqSetLocalDescription as st = tq env SetLocalDescription as st"

text \<open>\<^verbatim>\<open>defaultFail\<close>: \<^verbatim>\<open>tq.emit\<close> bound to the event name \<^verbatim>\<open>'fail'\<close>.\<close>

definition defaultFail :: "jsval list \<Rightarrow> state \<Rightarrow> state \<times> jsval option" where
  "defaultFail as st = (log (Emit ''fail'' as) st, None)"

text \<open>
  \<^verbatim>\<open>applyCandidate\<close> (lines 58 to 81). The first argument is read
  (\<^verbatim>\<open>undefined\<close> when there is none); reading \<^verbatim>\<open>srcElement\<close> of
  \<^verbatim>\<open>undefined\<close> or \<^verbatim>\<open>null\<close> throws a TypeError outside the
  \<^verbatim>\<open>try\<close>. \<^verbatim>\<open>data.candidate\<close> is read in the first test only when
  \<^verbatim>\<open>data.srcElement\<close> is truthy.
\<close>

definition typeError :: jsval where
  "typeError = JError ''TypeError''"

text \<open>
  Lines 60 to 65: the candidate data that the task carries. \<open>None\<close> when reading
  \<^verbatim>\<open>data.srcElement\<close> throws; an event is replaced by its candidate.
\<close>

definition payload :: "task \<Rightarrow> jsval option" where
  "payload t =
     (let data = (case args t of [] \<Rightarrow> Undefined | a # _ \<Rightarrow> a)
      in case getProp data ''srcElement'' of
           None \<Rightarrow> None
         | Some src \<Rightarrow>
             (let inner = (case getProp data ''candidate'' of None \<Rightarrow> Undefined | Some c \<Rightarrow> c)
              in if truthy src \<and> truthy inner then Some inner else Some data))"

definition applyCandidate :: "env \<Rightarrow> task \<Rightarrow> state \<Rightarrow> state \<times> outcome" where
  "applyCandidate env t st =
     (case payload t of
        None \<Rightarrow> (st, Threw typeError)
      | Some data \<Rightarrow>
          (case getProp data ''candidate'' of
             None \<Rightarrow> (st, Threw typeError)
           | Some c \<Rightarrow>
               if \<not> truthy c then (st, Called [])
               else
                 (case createIceCandidate env data of
                    Inl e \<Rightarrow> (log (ConsoleWarn e) st, Called [])
                  | Inr candidate \<Rightarrow>
                      (let st1 = log (PcCall ''addIceCandidate'' [candidate]) st
                       in case pcAddIceCandidate env (pc st) candidate of
                            Some e \<Rightarrow> (log (ConsoleWarn e) st1, Called [])
                          | None \<Rightarrow> (st1, Called [])))))"

text \<open>
  \<^verbatim>\<open>execMethod\<close> (lines 175 to 188). When the connection has the function, it is
  called with the task's arguments and the two callbacks, and the connection calls one
  of them later.
\<close>

definition unsupported :: "string \<Rightarrow> jsval" where
  "unsupported nm =
     JError (''cannot call '' @ [CHR 0x22] @ nm @ [CHR 0x22] @ '' on RTCPeerConnection'')"

definition execMethod :: "task \<Rightarrow> state \<Rightarrow> state \<times> outcome" where
  "execMethod t st =
     (if name t \<notin> set (methods (pc st)) then (st, Called [unsupported (name t)])
      else (log (PcCall (name t) (args t)) st, Awaiting))"

fun runStrategy :: "env \<Rightarrow> strategy \<Rightarrow> task \<Rightarrow> state \<Rightarrow> state \<times> outcome" where
  "runStrategy env ApplyCandidate t st = applyCandidate env t st"
| "runStrategy env ExecMethod t st = execMethod t st"

text \<open>
  The continuation that \<^verbatim>\<open>checkQueue\<close> hands to the strategy (lines 101 to 119),
  called with \<open>arguments\<close>. It reads \<^verbatim>\<open>currentTask\<close> when it runs; with no
  current task, reading \<^verbatim>\<open>currentTask.fail\<close> throws.
\<close>

definition continuation :: "env \<Rightarrow> jsval list \<Rightarrow> state \<Rightarrow> state \<times> jsval option" where
  "continuation env arguments st =
     (case currentTask st of
        None \<Rightarrow> (st, Some typeError)
      | Some t \<Rightarrow>
          (let err = (case arguments of [] \<Rightarrow> Undefined | e # _ \<Rightarrow> e);
               st1 = st\<lparr>currentTask := None\<rparr>
           in if truthy err then
                (let st2 = log (ConsoleError err) st1
                 in case fail t of
                      None \<Rightarrow> defaultFail [err] st2
                    | Some h \<Rightarrow> runHandler env h [err] st2)
              else
                (case (case pass t of
                         None \<Rightarrow> (st1, None)
                       | Some h \<Rightarrow> runHandler env h (drop 1 arguments) st1) of
                   (st2, Some e) \<Rightarrow> (st2, Some e)
                 | (st2, None) \<Rightarrow> (triggerQueueCheck None st2, None))))"

text \<open>\<^verbatim>\<open>checkQueue\<close> (lines 83 to 120).\<close>

definition checkQueue :: "env \<Rightarrow> state \<Rightarrow> state \<times> jsval option" where
  "checkQueue env st =
     (let next = (if \<not> isEmpty (queue st) \<and> currentTask st = None then peek (queue st)
                  else None);
          ready = (case next of None \<Rightarrow> False | Some t \<Rightarrow> testReady (pc st) t);
          retry = (\<not> isEmpty (queue st) \<and> isNotClosed (pc st))
      in if \<not> ready then ((if retry then triggerQueueCheck (Some 100) st else st), None)
         else
           (case deq (orderTasks (priorities env) (pc st)) (queue st) of
              None \<Rightarrow> (st, Some (JError ''PriorityQueue is empty''))
            | Some (first, rest) \<Rightarrow>
                (let st1 = st\<lparr>currentTask := Some first, queue := rest\<rparr>
                 in case runStrategy env (fn first) first st1 of
                      (st2, Threw e) \<Rightarrow> (st2, Some e)
                    | (st2, Awaiting) \<Rightarrow> (st2, None)
                    | (st2, Called as) \<Rightarrow> continuation env as st2)))"

section \<open>What happens to a queue\<close>

text \<open>
  The queue runs on one thread and is driven from outside: the pending timeout fires, the
  connection calls a callback of the running task with some arguments, a caller invokes
  one of the five public operations, or the connection moves to another state of its
  own. An exception goes to whoever made the call; the state stays as the throw left it.
\<close>

datatype input = Fire | Callback "jsval list" | Invoke operation "jsval list"
  | Connection pc_state

definition fire :: "env \<Rightarrow> state \<Rightarrow> state \<times> jsval option" where
  "fire env st =
     (case checkQueueTimer st of
        None \<Rightarrow> (st, None)
      | Some d \<Rightarrow> checkQueue env (st\<lparr>checkQueueTimer := None\<rparr>))"

fun step :: "env \<Rightarrow> input \<Rightarrow> state \<Rightarrow> state" where
  "step env Fire st = fst (fire env st)"
| "step env (Callback as) st = fst (continuation env as st)"
| "step env (Invoke f as) st = fst (tq env f as st)"
| "step env (Connection p) st = st\<lparr>pc := p\<rparr>"

fun run :: "env \<Rightarrow> input list \<Rightarrow> state \<Rightarrow> state" where
  "run env [] st = st"
| "run env (i # is) st = run env is (step env i st)"

text \<open>An input that leaves a closed connection closed: closed is the terminal state.\<close>

fun staysClosed :: "input \<Rightarrow> bool" where
  "staysClosed (Connection p) = (signalingState p = ''closed'')"
| "staysClosed i = True"

text \<open>
  What no function of the queue undoes, from a state to a later one: the connection is
  the same, every pending task is still pending, and the timeout is as it was or set to
  5 milliseconds.
\<close>

definition keeps :: "state \<Rightarrow> state \<Rightarrow> bool" where
  "keeps st st' \<longleftrightarrow>
     pc st' = pc st \<and> mset (queue st) \<subseteq># mset (queue st')
     \<and> (checkQueueTimer st' = checkQueueTimer st \<or> checkQueueTimer st' = Some 5)"

section \<open>Concrete queues\<close>

text \<open>
  Inputs on which the theorems below are run: a connection that was just created and one
  that has finished a negotiation, the default options with constructors that accept
  every payload, and the tasks that three of the public operations build.
\<close>

definition pcFresh :: pc_state where
  "pcFresh =
     \<lparr>signalingState = ''stable'', localDescription = Null, remoteDescription = Null,
      methods = [''createOffer'', ''createAnswer'', ''setLocalDescription'',
                 ''setRemoteDescription'', ''addIceCandidate'']\<rparr>"

definition pcConnected :: pc_state where
  "pcConnected =
     pcFresh\<lparr>localDescription := JObj [(''type'', JStr ''offer'')],
             remoteDescription := JObj [(''type'', JStr ''answer'')]\<rparr>"

definition envDefault :: env where
  "envDefault =
     \<lparr>priorities = DEFAULT_PRIORITIES, createIceCandidate = Inr,
      createSessionDescription = Inr, pcAddIceCandidate = (\<lambda>p c. None)\<rparr>"

definition offerTask :: task where
  "offerTask =
     \<lparr>args = [], name = ''createOffer'', fn = ExecMethod,
      checks = [IsNotClosed, IsNotNegotiating], pass = Some TqSetLocalDescription,
      fail = None\<rparr>"

definition hostCandidate :: jsval where
  "hostCandidate = JObj [(''candidate'', JStr ''candidate:1 1 udp 1 10.0.0.1 9 typ host'')]"

definition candidateTask :: task where
  "candidateTask =
     \<lparr>args = [hostCandidate], name = ''addIceCandidate'', fn = ApplyCandidate,
      checks = [HasLocalOrRemoteDescription], pass = None, fail = None\<rparr>"

definition localDescriptionTask :: task where
  "localDescriptionTask =
     \<lparr>args = [JObj [(''type'', JStr ''offer'')]], name = ''setLocalDescription'',
      fn = ExecMethod, checks = [], pass = Some EmitSdp, fail = None\<rparr>"

definition pcClosed :: pc_state where
  "pcClosed = pcFresh\<lparr>signalingState := ''closed''\<rparr>"

definition idle :: "pc_state \<Rightarrow> state" where
  "idle p = \<lparr>pc = p, queue = [], currentTask = None, checkQueueTimer = None, effects = []\<rparr>"

definition remoteOffer :: jsval where
  "remoteOffer = JObj [(''type'', JStr ''offer''), (''sdp'', JStr ''v=0'')]"

definition remoteDescriptionTask :: task where
  "remoteDescriptionTask =
     \<lparr>args = [remoteOffer], name = ''setRemoteDescription'', fn = ExecMethod,
      checks = [IsNotClosed], pass = Some CompleteConnection, fail = None\<rparr>"

text \<open>
  Options whose candidate constructor rejects every payload, and options over a
  connection whose \<^verbatim>\<open>addIceCandidate\<close> throws.
\<close>

definition envRejecting :: env where
  "envRejecting = envDefault\<lparr>createIceCandidate := (\<lambda>d. Inl (JError ''bad candidate''))\<rparr>"

definition envThrowing :: env where
  "envThrowing = envDefault\<lparr>pcAddIceCandidate := (\<lambda>p c. Some (JError ''InvalidStateError''))\<rparr>"

definition endOfCandidatesTask :: task where
  "endOfCandidatesTask =
     \<lparr>args = [JObj [(''srcElement'', JObj []), (''candidate'', Null)]],
      name = ''addIceCandidate'', fn = ApplyCandidate,
      checks = [HasLocalOrRemoteDescription], pass = None, fail = None\<rparr>"

definition hangupTask :: task where
  "hangupTask =
     \<lparr>args = [], name = ''hangup'', fn = ExecMethod, checks = [], pass = Some EmitSdp,
      fail = None\<rparr>"

definition running :: "task \<Rightarrow> pc_state \<Rightarrow> state" where
  "running t p = (idle p)\<lparr>currentTask := Some t\<rparr>"

definition offerError :: jsval where
  "offerError = JError ''OperationError''"

definition localOffer :: jsval where
  "localOffer = JObj [(''type'', JStr ''offer''), (''sdp'', JStr ''v=0'')]"

definition localOfferTask :: task where
  "localOfferTask =
     \<lparr>args = [localOffer], name = ''setLocalDescription'', fn = ExecMethod, checks = [],
      pass = Some EmitSdp, fail = None\<rparr>"

text \<open>
  A negotiation in which two offers and a candidate are requested at once, the first
  offer is created and set as local description, and the connection moves to
  \<open>have-local-offer\<close>.
\<close>

definition pcOffering :: pc_state where
  "pcOffering = pcConnected\<lparr>signalingState := ''have-local-offer''\<rparr>"

definition negotiation :: "input list" where
  "negotiation =
     [Invoke CreateOffer [], Invoke CreateOffer [], Invoke AddIceCandidate [hostCandidate],
      Fire, Callback [Null, localOffer], Fire, Connection pcOffering, Callback [Null], Fire]"

text \<open>
  Priority tables longer than the default one: \<open>n\<close> distinct names
  (\<open>x\<close>, \<open>xx\<close>, ...) followed by \<open>createOffer\<close>.
\<close>

definition fillerNames :: "nat \<Rightarrow> string list" where
  "fillerNames n = map (\<lambda>i. replicate (Suc i) (CHR ''x'')) [0..<n]"

definition longTable :: "string list" where
  "longTable = fillerNames 1001 @ [''createOffer'']"

definition crowdedTable :: "string list" where
  "crowdedTable = fillerNames 101 @ [''createOffer'']"

section \<open>Facts about the comparator\<close>

lemma testReady_all: "testReady p t \<longleftrightarrow> (\<forall>c \<in> set (checks t). runCheck c p)"
proof -
  have "foldl (\<lambda>memo c. memo \<and> runCheck c p) b cs \<longleftrightarrow> b \<and> (\<forall>c \<in> set cs. runCheck c p)"
    for b cs
    by (induction cs arbitrary: b) auto
  then show ?thesis by (simp add: testReady_def)
qed

lemma orderTasks_rank: "orderTasks ps p a b = rank ps p b - rank ps p a"
  by (simp add: orderTasks_def rank_def Let_def)

lemma indexFrom_absent: "x \<notin> set xs \<Longrightarrow> indexFrom xs x i = -1"
  by (induction xs arbitrary: i) auto

lemma indexFrom_present:
  "x \<in> set xs \<Longrightarrow> j \<le> indexFrom xs x j \<and> indexFrom xs x j < j + int (length xs)"
proof (induction xs arbitrary: j)
  case Nil
  then show ?case by simp
next
  case (Cons y ys)
  show ?case
  proof (cases "y = x")
    case True
    then show ?thesis by simp
  next
    case False
    with Cons.prems have "x \<in> set ys" by simp
    from Cons.IH [OF this, of "j + 1"] False show ?thesis by simp
  qed
qed

lemma indexFrom_append_last:
  "y \<notin> set xs \<Longrightarrow> indexFrom (xs @ [y]) y i = i + int (length xs)"
  by (induction xs arbitrary: i) auto

lemma indexOf_append_last: "y \<notin> set xs \<Longrightarrow> indexOf (xs @ [y]) y = int (length xs)"
  by (simp add: indexOf_def indexFrom_append_last)

lemma indexOf_absent: "x \<notin> set xs \<Longrightarrow> indexOf xs x = -1"
  by (simp add: indexOf_def indexFrom_absent)

lemma indexOf_present: "x \<in> set xs \<Longrightarrow> 0 \<le> indexOf xs x \<and> indexOf xs x < int (length xs)"
  using indexFrom_present [of x xs 0] by (simp add: indexOf_def)

lemma indexOf_lt_length: "indexOf xs x < int (length xs)"
  by (cases "x \<in> set xs") (auto simp: indexOf_absent dest: indexOf_present)

lemma rank_ready:
  "testReady p t \<Longrightarrow>
   rank ps p t = (if name t \<in> set ps then indexOf ps (name t) else PRIORITY_LOW)"
  by (auto simp: rank_def Let_def indexOf_absent dest: indexOf_present)

lemma rank_waiting: "\<not> testReady p t \<Longrightarrow> rank ps p t = PRIORITY_WAIT"
  by (simp add: rank_def)

lemma not_filler: "\<not> set s \<subseteq> {CHR ''x''} \<Longrightarrow> s \<notin> set (fillerNames n)"
  by (auto simp: fillerNames_def)

lemma length_fillerNames: "length (fillerNames n) = n"
  by (simp add: fillerNames_def)

lemma indexOf_after_fillers:
  "indexOf (fillerNames n @ [''createOffer'']) ''createOffer'' = int n"
proof -
  have "''createOffer'' \<notin> set (fillerNames n)"
    by (rule not_filler) simp
  from indexOf_append_last [OF this] show ?thesis
    by (simp only: length_fillerNames)
qed

lemma ready_offerTask: "testReady pcFresh offerTask"
  by (simp add: testReady_def offerTask_def pcFresh_def isNotClosed_def isNotNegotiating_def)

lemma waiting_candidateTask: "\<not> testReady pcFresh candidateTask"
  by (simp add: testReady_def candidateTask_def pcFresh_def hasLocalOrRemoteDescription_def)

lemma ready_localDescriptionTask: "testReady pcFresh localDescriptionTask"
  by (simp add: testReady_def localDescriptionTask_def)

lemma ready_when_connected:
  "testReady pcConnected offerTask \<and> testReady pcConnected candidateTask"
  by (simp add: testReady_def offerTask_def candidateTask_def pcConnected_def pcFresh_def
      isNotClosed_def isNotNegotiating_def hasLocalOrRemoteDescription_def)

lemma taskFor_registration:
  "taskFor env f as = Inr t \<Longrightarrow>
   name t = fst (registration env f) \<and> checks t = opt_checks (snd (snd (registration env f)))"
  by (cases f) (auto simp: taskFor_def newTask_def split: sum.splits option.splits)

lemma taskFor_examples:
  "taskFor envDefault CreateOffer [] = Inr offerTask"
  "taskFor envDefault AddIceCandidate [hostCandidate] = Inr candidateTask"
  by (simp_all add: taskFor_def newTask_def offerTask_def candidateTask_def)

text \<open>
  C8 (as amended). For every priority table, a ready task whose name is absent from the
  table has rank 100; that is strictly lower than the rank 1000 of every task that is
  not ready, and strictly higher than the rank of every ready task whose name occurs in
  the table below index 100 (every listed name, when the table has at most 100 names).
  The comparator orders the three kinds accordingly.
\<close>

theorem unlisted_rank:
  assumes "testReady p u" and "name u \<notin> set ps"
  shows "rank ps p u = PRIORITY_LOW
    \<and> (\<forall>w. \<not> testReady p w \<longrightarrow> rank ps p u < rank ps p w \<and> orderTasks ps p u w > 0)
    \<and> (\<forall>l. testReady p l \<and> name l \<in> set ps
            \<and> (length ps \<le> 100 \<or> indexOf ps (name l) < PRIORITY_LOW)
          \<longrightarrow> rank ps p l < rank ps p u \<and> orderTasks ps p l u > 0)"
proof -
  have "indexOf ps x < PRIORITY_LOW" if "length ps \<le> 100 \<or> indexOf ps x < PRIORITY_LOW" for x
    using that indexOf_lt_length [of ps x] by (auto simp: PRIORITY_LOW_def)
  with assms show ?thesis
    by (auto simp: orderTasks_rank rank_ready rank_waiting PRIORITY_LOW_def PRIORITY_WAIT_def)
qed

theorem unlisted_rank_witness:
  "testReady pcFresh localDescriptionTask
   \<and> name localDescriptionTask \<notin> set [''candidate'', ''createOffer'']
   \<and> rank [''candidate'', ''createOffer''] pcFresh localDescriptionTask = PRIORITY_LOW
   \<and> rank [''candidate'', ''createOffer''] pcFresh localDescriptionTask
       < rank [''candidate'', ''createOffer''] pcFresh candidateTask
   \<and> rank [''candidate'', ''createOffer''] pcFresh offerTask
       < rank [''candidate'', ''createOffer''] pcFresh localDescriptionTask"
proof -
  have absent: "name localDescriptionTask \<notin> set [''candidate'', ''createOffer'']"
    by (simp add: localDescriptionTask_def)
  have listed: "name offerTask \<in> set [''candidate'', ''createOffer'']
      \<and> indexOf [''candidate'', ''createOffer''] (name offerTask) < PRIORITY_LOW"
    by (simp add: offerTask_def indexOf_def PRIORITY_LOW_def)
  from unlisted_rank [OF ready_localDescriptionTask absent]
  show ?thesis
    using ready_localDescriptionTask absent listed ready_offerTask waiting_candidateTask
    by blast
qed

text \<open>
  C8 as stated fails for a table of more than 100 names: with \<open>createOffer\<close> at index
  101, the ready listed task has rank 101, which is worse than the rank 100 of a ready
  task whose name the table does not list.
\<close>

theorem unlisted_rank_counterexample:
  "testReady pcFresh localDescriptionTask \<and> name localDescriptionTask \<notin> set crowdedTable
   \<and> testReady pcFresh offerTask \<and> name offerTask \<in> set crowdedTable
   \<and> rank crowdedTable pcFresh localDescriptionTask < rank crowdedTable pcFresh offerTask"
proof -
  have absent: "name localDescriptionTask \<notin> set crowdedTable"
    using not_filler [of "''setLocalDescription''" 101]
    by (simp add: crowdedTable_def localDescriptionTask_def)
  have listed: "name offerTask \<in> set crowdedTable"
    by (simp add: crowdedTable_def offerTask_def)
  have "rank crowdedTable pcFresh offerTask = 101"
    using ready_offerTask indexOf_after_fillers [of 101]
    by (simp add: rank_def crowdedTable_def offerTask_def)
  moreover have "rank crowdedTable pcFresh localDescriptionTask = 100"
    using ready_localDescriptionTask absent by (simp add: rank_ready PRIORITY_LOW_def)
  ultimately show ?thesis
    using absent listed ready_offerTask ready_localDescriptionTask by simp
qed

text \<open>
  C9. Under the default priority table, the task that the public operation
  \<open>addIceCandidate\<close> builds has the name \<open>addIceCandidate\<close>, which the table does not
  list (it lists \<open>candidate\<close>); when ready it gets the default rank 100, and against
  every ready task built by one of the other four operations the comparator orders it
  behind.
\<close>

theorem addIceCandidate_default_rank:
  assumes "priorities env = DEFAULT_PRIORITIES"
    and "taskFor env AddIceCandidate as = Inr t"
    and "testReady p t"
  shows "name t = ''addIceCandidate'' \<and> name t \<notin> set (priorities env)
    \<and> rank (priorities env) p t = PRIORITY_LOW
    \<and> (\<forall>f as' u. f \<noteq> AddIceCandidate \<and> taskFor env f as' = Inr u \<and> testReady p u
          \<longrightarrow> rank (priorities env) p u < rank (priorities env) p t
            \<and> orderTasks (priorities env) p t u < 0
            \<and> orderTasks (priorities env) p u t > 0)"
proof -
  from taskFor_registration [OF assms(2)] have nm: "name t = ''addIceCandidate''"
    by simp
  with assms(1) have absent: "name t \<notin> set (priorities env)"
    by (simp add: DEFAULT_PRIORITIES_def)
  with assms(3) have r: "rank (priorities env) p t = PRIORITY_LOW"
    by (simp add: rank_ready)
  have "rank (priorities env) p u < PRIORITY_LOW"
    if "f \<noteq> AddIceCandidate" "taskFor env f as' = Inr u" "testReady p u" for f as' u
    using that assms(1) taskFor_registration [OF that(2)]
    by (cases f) (simp_all add: rank_def indexOf_def DEFAULT_PRIORITIES_def PRIORITY_LOW_def)
  with r nm absent show ?thesis
    by (auto simp: orderTasks_rank)
qed

theorem addIceCandidate_default_rank_witness:
  "priorities envDefault = DEFAULT_PRIORITIES
   \<and> taskFor envDefault AddIceCandidate [hostCandidate] = Inr candidateTask
   \<and> testReady pcConnected candidateTask
   \<and> taskFor envDefault CreateOffer [] = Inr offerTask
   \<and> testReady pcConnected offerTask
   \<and> rank (priorities envDefault) pcConnected candidateTask = PRIORITY_LOW
   \<and> orderTasks (priorities envDefault) pcConnected candidateTask offerTask < 0
   \<and> orderTasks (priorities envDefault) pcConnected offerTask candidateTask > 0"
proof -
  have d: "priorities envDefault = DEFAULT_PRIORITIES"
    by (simp add: envDefault_def)
  from addIceCandidate_default_rank [OF d taskFor_examples(2)] ready_when_connected
  have "rank (priorities envDefault) pcConnected candidateTask = PRIORITY_LOW"
    and "\<forall>f as' u. f \<noteq> AddIceCandidate \<and> taskFor envDefault f as' = Inr u
           \<and> testReady pcConnected u
          \<longrightarrow> orderTasks (priorities envDefault) pcConnected candidateTask u < 0
            \<and> orderTasks (priorities envDefault) pcConnected u candidateTask > 0"
    by blast+
  with d taskFor_examples ready_when_connected show ?thesis
    by (metis operation.distinct(5))
qed

text \<open>
  C10. Against one connection state the comparator is antisymmetric: swapping the two
  tasks negates the result, and a task compared with itself gives 0.
\<close>

theorem orderTasks_antisymmetric:
  "orderTasks ps p a b = - orderTasks ps p b a \<and> orderTasks ps p a a = 0"
  by (simp add: orderTasks_rank)

section \<open>Facts about the heap and the scheduler\<close>

declare siftUp.simps [simp del] siftDown.simps [simp del]

lemma length_pq_swap: "length (pq_swap a b es) = length es"
  by (simp add: pq_swap_def)

lemma mset_pq_swap: "a < length es \<Longrightarrow> b < length es \<Longrightarrow> mset (pq_swap a b es) = mset es"
  by (simp add: pq_swap_def mset_swap)

lemma mset_siftUp: "current < length es \<Longrightarrow> mset (siftUp cmp current es) = mset es"
proof (induction cmp current es rule: siftUp.induct)
  case (1 cmp current es)
  let ?parent = "(current - 1) div 2"
  show ?case
  proof (cases "current > 0 \<and> \<not> cmp (es ! current) (es ! ?parent) \<le> 0")
    case True
    then have unfold: "siftUp cmp current es = siftUp cmp ?parent (pq_swap ?parent current es)"
      by (subst siftUp.simps) (simp add: Let_def)
    have parent: "?parent < length es"
      using "1.prems" by simp
    from True parent have "mset (siftUp cmp ?parent (pq_swap ?parent current es)) = mset (pq_swap ?parent current es)"
      by (intro "1.IH") (simp_all add: length_pq_swap)
    with unfold parent "1.prems" show ?thesis
      by (simp add: mset_pq_swap)
  next
    case False
    then show ?thesis
      by (subst siftUp.simps) (auto simp: Let_def)
  qed
qed

lemma mset_enq: "mset (enq cmp e es) = add_mset e (mset es)"
  by (simp add: enq_def mset_siftUp)

lemma largestOf_bounds:
  "current < length es \<Longrightarrow> largestOf cmp current es < length es"
  "largestOf cmp current es \<noteq> current \<Longrightarrow> current < largestOf cmp current es"
  by (auto simp: largestOf_def Let_def split: if_splits)

lemma mset_siftDown: "mset (siftDown cmp current es) = mset es"
proof (induction cmp current es rule: siftDown.induct)
  case (1 cmp current es)
  let ?largest = "largestOf cmp current es"
  show ?case
  proof (cases "current < length es \<and> ?largest \<noteq> current")
    case True
    then have unfold: "siftDown cmp current es = siftDown cmp ?largest (pq_swap ?largest current es)"
      by (subst siftDown.simps) (simp add: Let_def)
    from True have bound: "?largest < length es"
      by (simp add: largestOf_bounds)
    from True have "mset (siftDown cmp ?largest (pq_swap ?largest current es)) = mset (pq_swap ?largest current es)"
      by (intro "1.IH") simp_all
    with unfold bound True show ?thesis
      by (simp only: mset_pq_swap)
  next
    case False
    then show ?thesis
      by (subst siftDown.simps) (auto simp: Let_def)
  qed
qed

lemma deq_nonempty:
  "es \<noteq> [] \<Longrightarrow> \<exists>rest. deq cmp es = Some (hd es, rest) \<and> mset rest = mset (tl es)"
proof (cases es)
  case Nil
  moreover assume "es \<noteq> []"
  ultimately show ?thesis by simp
next
  case (Cons first mid)
  show ?thesis
  proof (cases "mid = []")
    case True
    with Cons show ?thesis by (simp add: deq_def)
  next
    case False
    then have mid: "mid = butlast mid @ [last mid]" by simp
    have "mset ((first # butlast mid)[0 := last mid]) = mset mid"
      by (subst (3) mid) simp
    with Cons False show ?thesis
      by (simp add: deq_def Let_def mset_siftDown)
  qed
qed


lemma keeps_refl: "keeps st st"
  by (simp add: keeps_def)

lemma keeps_trans: "keeps st st' \<Longrightarrow> keeps st' st'' \<Longrightarrow> keeps st st''"
  unfolding keeps_def by (metis subset_mset.order_trans)

lemma keeps_log: "keeps st (log e st)"
  by (simp add: keeps_def log_def)

lemma enqueue_keeps:
  "enqueue env nm h os as st = (st', x) \<Longrightarrow> keeps st st' \<and> currentTask st' = currentTask st"
  by (auto simp: enqueue_def keeps_def triggerQueueCheck_def mset_enq split: sum.splits)

lemma tq_keeps:
  "tq env f as st = (st', x) \<Longrightarrow> keeps st st' \<and> currentTask st' = currentTask st"
  by (auto simp: tq_def split: prod.splits dest: enqueue_keeps)

lemma runHandler_keeps:
  "runHandler env h as st = (st', x) \<Longrightarrow> keeps st st' \<and> currentTask st' = currentTask st"
proof (cases h)
  case EmitSdp
  moreover assume "runHandler env h as st = (st', x)"
  ultimately show ?thesis by (auto simp: keeps_log) (simp add: log_def)
next
  case CompleteConnection
  moreover assume "runHandler env h as st = (st', x)"
  ultimately show ?thesis
    by (auto simp: keeps_refl split: if_splits dest: tq_keeps)
next
  case TqSetLocalDescription
  moreover assume "runHandler env h as st = (st', x)"
  ultimately show ?thesis by (auto dest: tq_keeps)
qed

lemma keeps_unset: "keeps st (st\<lparr>currentTask := None\<rparr>)"
  by (simp add: keeps_def)

lemma keeps_trigger: "keeps st (triggerQueueCheck None st)"
  by (simp add: keeps_def triggerQueueCheck_def)

lemma continuation_keeps:
  assumes "continuation env as st = (st', x)"
  shows "keeps st st' \<and> currentTask st' = None"
proof (cases "currentTask st")
  case None
  with assms show ?thesis by (simp add: continuation_def keeps_refl)
next
  case (Some t)
  let ?err = "case as of [] \<Rightarrow> Undefined | e # _ \<Rightarrow> e"
  let ?st1 = "st\<lparr>currentTask := None\<rparr>"
  show ?thesis
  proof (cases "truthy ?err")
    case True
    let ?st2 = "log (ConsoleError ?err) ?st1"
    have k2: "keeps st ?st2" and c2: "currentTask ?st2 = None"
      by (simp_all add: keeps_def log_def)
    show ?thesis
    proof (cases "fail t")
      case None
      with assms Some True have "st' = log (Emit ''fail'' [?err]) ?st2"
        by (simp add: continuation_def Let_def defaultFail_def)
      then show ?thesis by (simp add: keeps_def log_def)
    next
      case (Some h)
      with assms \<open>currentTask st = Some t\<close> True
      have "runHandler env h [?err] ?st2 = (st', x)"
        by (simp add: continuation_def Let_def)
      from runHandler_keeps [OF this] k2 c2 show ?thesis
        by (auto intro: keeps_trans)
    qed
  next
    case False
    obtain st2 y where r: "(case pass t of None \<Rightarrow> (?st1, None)
        | Some h \<Rightarrow> runHandler env h (drop 1 as) ?st1) = (st2, y)"
      by (cases "case pass t of None \<Rightarrow> (?st1, None)
        | Some h \<Rightarrow> runHandler env h (drop 1 as) ?st1") auto
    then have k: "keeps ?st1 st2 \<and> currentTask st2 = None"
      by (cases "pass t") (auto simp: keeps_refl dest: runHandler_keeps)
    from assms Some False r
    have "st' = st2 \<or> st' = triggerQueueCheck None st2"
      by (auto simp: continuation_def Let_def split: option.splits)
    moreover from k keeps_unset [of st] have "keeps st st2"
      by (blast intro: keeps_trans)
    moreover from this have "keeps st (triggerQueueCheck None st2)"
      by (rule keeps_trans) (rule keeps_trigger)
    moreover have "currentTask (triggerQueueCheck None st2) = currentTask st2"
      by (simp add: triggerQueueCheck_def)
    ultimately show ?thesis
      using k by auto
  qed
qed

lemma runStrategy_keeps:
  "runStrategy env s t st = (st', out) \<Longrightarrow>
   keeps st st' \<and> currentTask st' = currentTask st \<and> queue st' = queue st"
  by (cases s)
     (auto simp: applyCandidate_def execMethod_def keeps_def log_def Let_def
           split: option.splits if_splits sum.splits)


lemma closed_not_ready:
  "signalingState p = ''closed'' \<Longrightarrow> IsNotClosed \<in> set (checks t) \<Longrightarrow> \<not> testReady p t"
proof -
  assume "signalingState p = ''closed''" and "IsNotClosed \<in> set (checks t)"
  then have "\<exists>c \<in> set (checks t). \<not> runCheck c p"
    by (intro bexI [of _ IsNotClosed]) (simp_all add: isNotClosed_def)
  then show ?thesis by (simp add: testReady_all)
qed

lemma checkQueue_waiting:
  assumes "\<not> testReady (pc st) t"
    and "checkQueue env st = (st', x)"
  shows "pc st' = pc st"
    and "count (mset (queue st)) t \<le> count (mset (queue st')) t"
    and "currentTask st \<noteq> Some t \<Longrightarrow> currentTask st' \<noteq> Some t"
    and "checkQueueTimer st' = checkQueueTimer st \<or> checkQueueTimer st' = Some 5
         \<or> (isNotClosed (pc st) \<and> checkQueueTimer st' = Some 100)"
proof -
  let ?ready = "queue st \<noteq> [] \<and> currentTask st = None \<and> testReady (pc st) (hd (queue st))"
  have ready_eq: "(case (if \<not> isEmpty (queue st) \<and> currentTask st = None
                        then peek (queue st) else None) of
                    None \<Rightarrow> False | Some t \<Rightarrow> testReady (pc st) t) = ?ready"
    by (cases "queue st") (simp_all add: isEmpty_def peek_def)
  have "pc st' = pc st
    \<and> count (mset (queue st)) t \<le> count (mset (queue st')) t
    \<and> (currentTask st \<noteq> Some t \<longrightarrow> currentTask st' \<noteq> Some t)
    \<and> (checkQueueTimer st' = checkQueueTimer st \<or> checkQueueTimer st' = Some 5
         \<or> (isNotClosed (pc st) \<and> checkQueueTimer st' = Some 100))"
  proof (cases ?ready)
    case False
    with assms(2) ready_eq
    have "st' = (if \<not> isEmpty (queue st) \<and> isNotClosed (pc st)
                 then triggerQueueCheck (Some 100) st else st)"
      by (simp add: checkQueue_def Let_def)
    then show ?thesis
      by (simp add: triggerQueueCheck_def)
  next
    case True
    then obtain rest where d: "deq (orderTasks (priorities env) (pc st)) (queue st)
        = Some (hd (queue st), rest)" and m: "mset rest = mset (tl (queue st))"
      using deq_nonempty by blast
    let ?first = "hd (queue st)"
    let ?st1 = "st\<lparr>currentTask := Some ?first, queue := rest\<rparr>"
    from True assms(1) have ne: "?first \<noteq> t" by auto
    from True have "mset (queue st) = add_mset ?first (mset (tl (queue st)))"
      by (cases "queue st") simp_all
    with m ne have cnt: "count (mset (queue st)) t = count (mset rest) t"
      by simp
    obtain st2 out where s: "runStrategy env (fn ?first) ?first ?st1 = (st2, out)"
      by (cases "runStrategy env (fn ?first) ?first ?st1") auto
    from runStrategy_keeps [OF this]
    have k2: "keeps ?st1 st2" and c2: "currentTask st2 = Some ?first" and q2: "queue st2 = rest"
      by simp_all
    from assms(2) True ready_eq d s
    have res: "(st', x) = (case out of Threw e \<Rightarrow> (st2, Some e) | Awaiting \<Rightarrow> (st2, None)
                | Called as \<Rightarrow> continuation env as st2)"
      by (simp add: checkQueue_def Let_def)
    show ?thesis
    proof (cases out)
      case (Called as)
      with res have "continuation env as st2 = (st', x)" by simp
      from continuation_keeps [OF this] have "keeps st2 st'" and "currentTask st' = None"
        by simp_all
      with k2 q2 cnt show ?thesis
        by (auto simp: keeps_def dest: mset_subset_eq_count [of _ _ t])
    next
      case (Threw e)
      with res have "st' = st2" by simp
      with k2 c2 q2 cnt ne show ?thesis
        by (auto simp: keeps_def)
    next
      case Awaiting
      with res have "st' = st2" by simp
      with k2 c2 q2 cnt ne show ?thesis
        by (auto simp: keeps_def)
    qed
  qed
  then show "pc st' = pc st"
    and "count (mset (queue st)) t \<le> count (mset (queue st')) t"
    and "currentTask st \<noteq> Some t \<Longrightarrow> currentTask st' \<noteq> Some t"
    and "checkQueueTimer st' = checkQueueTimer st \<or> checkQueueTimer st' = Some 5
         \<or> (isNotClosed (pc st) \<and> checkQueueTimer st' = Some 100)"
    by simp_all
qed


lemma enq_empty: "enq cmp e [] = [e]"
  by (simp add: enq_def siftUp.simps)

lemma step_pending:
  assumes "signalingState (pc st) = ''closed''" and "IsNotClosed \<in> set (checks t)"
    and "staysClosed i"
  shows "signalingState (pc (step env i st)) = ''closed''"
    and "count (mset (queue st)) t \<le> count (mset (queue (step env i st))) t"
    and "currentTask st \<noteq> Some t \<Longrightarrow> currentTask (step env i st) \<noteq> Some t"
    and "checkQueueTimer st \<noteq> Some 100 \<Longrightarrow> checkQueueTimer (step env i st) \<noteq> Some 100"
proof -
  have "signalingState (pc (step env i st)) = ''closed''
    \<and> count (mset (queue st)) t \<le> count (mset (queue (step env i st))) t
    \<and> (currentTask st \<noteq> Some t \<longrightarrow> currentTask (step env i st) \<noteq> Some t)
    \<and> (checkQueueTimer st \<noteq> Some 100 \<longrightarrow> checkQueueTimer (step env i st) \<noteq> Some 100)"
  proof (cases i)
    case Fire
    show ?thesis
    proof (cases "checkQueueTimer st")
      case None
      with Fire assms(1) show ?thesis by (simp add: fire_def)
    next
      case (Some d)
      let ?st0 = "st\<lparr>checkQueueTimer := None\<rparr>"
      obtain st' x where c: "checkQueue env ?st0 = (st', x)"
        by (cases "checkQueue env ?st0") auto
      from assms(1,2) have "\<not> testReady (pc ?st0) t"
        by (simp add: closed_not_ready)
      from checkQueue_waiting [OF this c] assms(1)
      have "pc st' = pc st" "count (mset (queue st)) t \<le> count (mset (queue st')) t"
        "currentTask st \<noteq> Some t \<longrightarrow> currentTask st' \<noteq> Some t"
        "checkQueueTimer st' \<noteq> Some 100"
        by (auto simp: isNotClosed_def)
      moreover from Fire Some c have "step env i st = st'"
        by (simp add: fire_def)
      ultimately show ?thesis using assms(1) by simp
    qed
  next
    case (Callback as)
    obtain st' x where c: "continuation env as st = (st', x)"
      by (cases "continuation env as st") auto
    from continuation_keeps [OF c] Callback c assms(1) show ?thesis
      by (auto simp: keeps_def dest: mset_subset_eq_count [of _ _ t])
  next
    case (Invoke f as)
    obtain st' x where c: "tq env f as st = (st', x)"
      by (cases "tq env f as st") auto
    from tq_keeps [OF c] Invoke c assms(1) show ?thesis
      by (auto simp: keeps_def dest: mset_subset_eq_count [of _ _ t])
  next
    case (Connection p)
    with assms show ?thesis by simp
  qed
  then show "signalingState (pc (step env i st)) = ''closed''"
    and "count (mset (queue st)) t \<le> count (mset (queue (step env i st))) t"
    and "currentTask st \<noteq> Some t \<Longrightarrow> currentTask (step env i st) \<noteq> Some t"
    and "checkQueueTimer st \<noteq> Some 100 \<Longrightarrow> checkQueueTimer (step env i st) \<noteq> Some 100"
    by simp_all
qed

lemma run_pending:
  assumes "IsNotClosed \<in> set (checks t)" and "list_all staysClosed is"
    and "signalingState (pc st) = ''closed''"
  shows "signalingState (pc (run env is st)) = ''closed''
    \<and> count (mset (queue st)) t \<le> count (mset (queue (run env is st))) t
    \<and> (currentTask st \<noteq> Some t \<longrightarrow> currentTask (run env is st) \<noteq> Some t)
    \<and> (checkQueueTimer st \<noteq> Some 100 \<longrightarrow> checkQueueTimer (run env is st) \<noteq> Some 100)"
  using assms(2,3)
proof (induction "is" arbitrary: st)
  case Nil
  then show ?case by simp
next
  case (Cons i "is")
  from Cons.prems have i: "staysClosed i" and rest: "list_all staysClosed is"
    by simp_all
  note s = step_pending [OF Cons.prems(2) assms(1) i, of env]
  from Cons.IH [OF rest s(1)] s(2,3,4) show ?case
    by (auto intro: order_trans)
qed

lemma tq_taskFor:
  "taskFor env f as = Inr t \<Longrightarrow>
   tq env f as st =
     (st\<lparr>queue := enq (orderTasks (priorities env) (pc st)) t (queue st),
         checkQueueTimer := Some 5\<rparr>, None)"
  by (auto simp: taskFor_def tq_def enqueue_def triggerQueueCheck_def split: prod.splits)

lemma checkQueue_not_ready:
  assumes "peek (queue st) = Some h" and "\<not> testReady (pc st) h"
  shows "checkQueue env st =
    ((if isNotClosed (pc st) then triggerQueueCheck (Some 100) st else st), None)"
  using assms by (auto simp: checkQueue_def Let_def isEmpty_def peek_def split: list.splits)

text \<open>
  C1 (as amended). Two tasks are compared against the same connection state; \<open>a\<close> is
  ready and \<open>b\<close> is not. When the priority table has at most 1000 names, or the name of
  \<open>a\<close> is absent from it or first occurs below index 1000, the comparator is positive
  for \<open>(a, b)\<close> and negative for \<open>(b, a)\<close>: \<open>a\<close> is ranked strictly ahead of \<open>b\<close>,
  whatever the static priorities of the two names. A poll against that state does not
  dequeue \<open>b\<close>: every copy of it stays in the queue, and it does not become the running
  task.
\<close>

theorem ready_ahead_of_waiting:
  assumes "testReady p a" and "\<not> testReady p b"
    and "length ps \<le> 1000 \<or> indexOf ps (name a) < PRIORITY_WAIT"
  shows "orderTasks ps p a b > 0 \<and> orderTasks ps p b a < 0
    \<and> (\<forall>env st. pc st = p \<longrightarrow>
          count (mset (queue st)) b \<le> count (mset (queue (fst (checkQueue env st)))) b
          \<and> (currentTask st \<noteq> Some b \<longrightarrow> currentTask (fst (checkQueue env st)) \<noteq> Some b))"
proof -
  from assms(3) indexOf_lt_length [of ps "name a"] have "indexOf ps (name a) < PRIORITY_WAIT"
    by (auto simp: PRIORITY_WAIT_def)
  with assms(1,2) have "orderTasks ps p a b > 0 \<and> orderTasks ps p b a < 0"
    by (auto simp: orderTasks_rank rank_def Let_def PRIORITY_LOW_def PRIORITY_WAIT_def)
  moreover have "count (mset (queue st)) b \<le> count (mset (queue (fst (checkQueue env st)))) b
      \<and> (currentTask st \<noteq> Some b \<longrightarrow> currentTask (fst (checkQueue env st)) \<noteq> Some b)"
    if "pc st = p" for env st
  proof -
    obtain st' x where c: "checkQueue env st = (st', x)"
      by (cases "checkQueue env st") auto
    from that assms(2) have "\<not> testReady (pc st) b" by simp
    from checkQueue_waiting(2,3) [OF this c] c show ?thesis by simp
  qed
  ultimately show ?thesis by blast
qed

theorem ready_ahead_of_waiting_witness:
  "testReady pcFresh offerTask \<and> \<not> testReady pcFresh candidateTask
   \<and> length DEFAULT_PRIORITIES \<le> 1000
   \<and> orderTasks DEFAULT_PRIORITIES pcFresh offerTask candidateTask > 0
   \<and> orderTasks DEFAULT_PRIORITIES pcFresh candidateTask offerTask < 0
   \<and> pc ((idle pcFresh)\<lparr>queue := [offerTask, candidateTask]\<rparr>) = pcFresh
   \<and> candidateTask
       \<in> set (queue (fst (checkQueue envDefault
                              ((idle pcFresh)\<lparr>queue := [offerTask, candidateTask]\<rparr>))))
   \<and> currentTask (fst (checkQueue envDefault
                          ((idle pcFresh)\<lparr>queue := [offerTask, candidateTask]\<rparr>)))
       \<noteq> Some candidateTask"
proof -
  let ?st = "(idle pcFresh)\<lparr>queue := [offerTask, candidateTask]\<rparr>"
  have i: "length DEFAULT_PRIORITIES \<le> 1000 \<or> indexOf DEFAULT_PRIORITIES (name offerTask) < PRIORITY_WAIT"
    and l: "length DEFAULT_PRIORITIES \<le> 1000"
    by (simp_all add: DEFAULT_PRIORITIES_def)
  have q: "pc ?st = pcFresh" and k: "currentTask ?st \<noteq> Some candidateTask"
    and n: "count (mset (queue ?st)) candidateTask = 1"
    by (simp_all add: idle_def offerTask_def candidateTask_def)
  note inst = ready_ahead_of_waiting [OF ready_offerTask waiting_candidateTask i]
  from inst q k have "currentTask (fst (checkQueue envDefault ?st)) \<noteq> Some candidateTask"
    by blast
  moreover from inst q n
  have "0 < count (mset (queue (fst (checkQueue envDefault ?st)))) candidateTask"
    by (metis less_le_trans zero_less_one)
  then have "candidateTask \<in> set (queue (fst (checkQueue envDefault ?st)))"
    by (simp only: count_greater_zero_iff set_mset_mset)
  ultimately show ?thesis
    using inst ready_offerTask waiting_candidateTask l q by blast
qed

text \<open>
  C1 as stated fails for a long priority table: with \<open>createOffer\<close> at index 1001, a
  ready \<open>createOffer\<close> task gets priority 1001 and a waiting candidate task gets 1000,
  so the comparator ranks the task that is not ready ahead of the ready one.
\<close>

theorem ready_behind_waiting_counterexample:
  "testReady pcFresh offerTask \<and> \<not> testReady pcFresh candidateTask
   \<and> orderTasks longTable pcFresh offerTask candidateTask < 0"
proof -
  have "rank longTable pcFresh offerTask = 1001"
    using ready_offerTask indexOf_after_fillers [of 1001]
    by (simp add: rank_def longTable_def offerTask_def)
  moreover have "rank longTable pcFresh candidateTask = 1000"
    using waiting_candidateTask by (simp add: rank_waiting PRIORITY_WAIT_def)
  ultimately show ?thesis
    using ready_offerTask waiting_candidateTask by (simp add: orderTasks_rank)
qed

text \<open>
  The heap calls the comparator only while inserting and removing, so its stored order
  can be older than the connection state. Two \<open>createOffer\<close> calls and a candidate are
  queued on a connected peer; the first offer runs and chains \<open>setLocalDescription\<close>,
  after which the connection is in \<open>have-local-offer\<close>. The second offer, not ready
  now, is at the head; the candidate, ready, is behind it, and each poll only re-arms
  the retry.
\<close>

lemma stale_head_blocks_ready_task:
  "map name (queue (run envDefault negotiation (idle pcConnected)))
     = [''createOffer'', ''addIceCandidate'']
   \<and> map (testReady (pc (run envDefault negotiation (idle pcConnected))))
         (queue (run envDefault negotiation (idle pcConnected))) = [False, True]
   \<and> currentTask (run envDefault negotiation (idle pcConnected)) = None
   \<and> checkQueueTimer (run envDefault negotiation (idle pcConnected)) = Some 100
   \<and> step envDefault Fire (run envDefault negotiation (idle pcConnected))
       = run envDefault negotiation (idle pcConnected)"
  by code_simp

text \<open>
  C2 (as amended). A \<open>setRemoteDescription\<close> task is enqueued while the signaling
  state is closed. As long as the connection stays closed, whatever timeouts, callbacks
  and further calls follow: the task is not ready, it is still in the queue, it is not
  the running task, and the 100 millisecond retry is never armed. With nothing else
  queued, the timeout that the enqueue set fires once, the poll changes nothing, and no
  timeout is pending afterwards.
\<close>

theorem closed_task_stays_pending:
  assumes "signalingState (pc st) = ''closed''"
    and "taskFor env SetRemoteDescription as = Inr t"
    and "currentTask st \<noteq> Some t"
    and "list_all staysClosed is"
  shows "\<not> testReady (pc (run env (Invoke SetRemoteDescription as # is) st)) t
    \<and> count (mset (queue st)) t
        < count (mset (queue (run env (Invoke SetRemoteDescription as # is) st))) t
    \<and> currentTask (run env (Invoke SetRemoteDescription as # is) st) \<noteq> Some t
    \<and> checkQueueTimer (run env (Invoke SetRemoteDescription as # is) st) \<noteq> Some 100
    \<and> (queue st = [] \<longrightarrow>
         run env [Invoke SetRemoteDescription as, Fire] st
           = st\<lparr>queue := [t], checkQueueTimer := None\<rparr>)"
proof -
  let ?st' = "st\<lparr>queue := enq (orderTasks (priorities env) (pc st)) t (queue st),
                checkQueueTimer := Some 5\<rparr>"
  from taskFor_registration [OF assms(2)] have chk: "IsNotClosed \<in> set (checks t)"
    by simp
  have first: "step env (Invoke SetRemoteDescription as) st = ?st'"
    by (simp add: tq_taskFor [OF assms(2)])
  have closed': "signalingState (pc ?st') = ''closed''"
    using assms(1) by simp
  have more: "count (mset (queue st)) t < count (mset (queue ?st')) t"
    by (simp add: mset_enq)
  from run_pending [OF chk assms(4) closed', of env] assms(3) more
  have "signalingState (pc (run env is ?st')) = ''closed''"
    and "count (mset (queue st)) t < count (mset (queue (run env is ?st'))) t"
    and "currentTask (run env is ?st') \<noteq> Some t"
    and "checkQueueTimer (run env is ?st') \<noteq> Some 100"
    by auto
  moreover from this(1) chk have "\<not> testReady (pc (run env is ?st')) t"
    by (rule closed_not_ready)
  moreover have "run env [Invoke SetRemoteDescription as, Fire] st
      = st\<lparr>queue := [t], checkQueueTimer := None\<rparr>" if "queue st = []"
  proof -
    let ?st0 = "st\<lparr>queue := [t], checkQueueTimer := None\<rparr>"
    from assms(1) chk have "\<not> testReady (pc ?st0) t"
      by (simp add: closed_not_ready)
    with assms(1) have "checkQueue env ?st0 = (?st0, None)"
      by (subst checkQueue_not_ready [of _ t]) (simp_all add: peek_def isNotClosed_def)
    with that first show ?thesis
      by (simp add: fire_def enq_empty)
  qed
  ultimately show ?thesis
    using first by simp
qed

lemma remote_task: "taskFor envDefault SetRemoteDescription [remoteOffer] = Inr remoteDescriptionTask"
  by (simp add: taskFor_def newTask_def envDefault_def remoteDescriptionTask_def)

theorem closed_task_stays_pending_witness:
  "signalingState (pc (idle pcClosed)) = ''closed''
   \<and> taskFor envDefault SetRemoteDescription [remoteOffer] = Inr remoteDescriptionTask
   \<and> currentTask (idle pcClosed) \<noteq> Some remoteDescriptionTask
   \<and> list_all staysClosed [Fire, Invoke AddIceCandidate [hostCandidate], Fire]
   \<and> \<not> testReady (pc (run envDefault
          [Invoke SetRemoteDescription [remoteOffer], Fire,
           Invoke AddIceCandidate [hostCandidate], Fire] (idle pcClosed))) remoteDescriptionTask
   \<and> remoteDescriptionTask \<in> set (queue (run envDefault
          [Invoke SetRemoteDescription [remoteOffer], Fire,
           Invoke AddIceCandidate [hostCandidate], Fire] (idle pcClosed)))
   \<and> checkQueueTimer (run envDefault
          [Invoke SetRemoteDescription [remoteOffer], Fire,
           Invoke AddIceCandidate [hostCandidate], Fire] (idle pcClosed)) \<noteq> Some 100
   \<and> queue (idle pcClosed) = []
   \<and> run envDefault [Invoke SetRemoteDescription [remoteOffer], Fire] (idle pcClosed)
       = (idle pcClosed)\<lparr>queue := [remoteDescriptionTask], checkQueueTimer := None\<rparr>"
proof -
  have a: "signalingState (pc (idle pcClosed)) = ''closed''"
    by (simp add: idle_def pcClosed_def)
  have b: "currentTask (idle pcClosed) \<noteq> Some remoteDescriptionTask"
    by (simp add: idle_def)
  have c: "list_all staysClosed [Fire, Invoke AddIceCandidate [hostCandidate], Fire]"
    by simp
  have d: "queue (idle pcClosed) = []"
    by (simp add: idle_def)
  note inst = closed_task_stays_pending [OF a remote_task b c]
  from inst have "0 < count (mset (queue (run envDefault
          [Invoke SetRemoteDescription [remoteOffer], Fire,
           Invoke AddIceCandidate [hostCandidate], Fire] (idle pcClosed)))) remoteDescriptionTask"
    by linarith
  then have "remoteDescriptionTask \<in> set (queue (run envDefault
          [Invoke SetRemoteDescription [remoteOffer], Fire,
           Invoke AddIceCandidate [hostCandidate], Fire] (idle pcClosed)))"
    by (simp only: count_greater_zero_iff set_mset_mset)
  with inst a b c d remote_task show ?thesis
    by blast
qed

text \<open>
  C2 as stated fails: on an idle queue over a closed connection, the enqueue arms the
  5 millisecond timeout; when it fires the poll finds the task not ready and, the
  connection being closed, arms nothing. No retry timeout is pending after that.
\<close>

theorem retry_timer_counterexample:
  "signalingState (pc (idle pcClosed)) = ''closed''
   \<and> run envDefault [Invoke SetRemoteDescription [remoteOffer]] (idle pcClosed)
       = (idle pcClosed)\<lparr>queue := [remoteDescriptionTask], checkQueueTimer := Some 5\<rparr>
   \<and> run envDefault [Invoke SetRemoteDescription [remoteOffer], Fire] (idle pcClosed)
       = (idle pcClosed)\<lparr>queue := [remoteDescriptionTask], checkQueueTimer := None\<rparr>
   \<and> checkQueueTimer
        (run envDefault [Invoke SetRemoteDescription [remoteOffer], Fire] (idle pcClosed))
       = None"
proof -
  have e: "run envDefault [Invoke SetRemoteDescription [remoteOffer]] (idle pcClosed)
       = (idle pcClosed)\<lparr>queue := [remoteDescriptionTask], checkQueueTimer := Some 5\<rparr>"
    by (simp add: tq_taskFor [OF remote_task] idle_def enq_empty)
  have "checkQueue envDefault ((idle pcClosed)\<lparr>queue := [remoteDescriptionTask]\<rparr>)
      = ((idle pcClosed)\<lparr>queue := [remoteDescriptionTask]\<rparr>, None)"
    by (simp add: checkQueue_def idle_def pcClosed_def remoteDescriptionTask_def isEmpty_def
        peek_def testReady_def isNotClosed_def)
  then have f: "run envDefault [Invoke SetRemoteDescription [remoteOffer], Fire] (idle pcClosed)
       = (idle pcClosed)\<lparr>queue := [remoteDescriptionTask], checkQueueTimer := None\<rparr>"
    by (simp add: tq_taskFor [OF remote_task] fire_def idle_def enq_empty)
  from e f show ?thesis
    by (simp add: idle_def pcClosed_def)
qed

section \<open>The strategies and the continuation\<close>

lemma payload_None:
  "payload t = None \<longleftrightarrow> args t = [] \<or> hd (args t) = Undefined \<or> hd (args t) = Null"
proof (cases "args t")
  case Nil
  then show ?thesis by (simp add: payload_def)
next
  case (Cons a as)
  then show ?thesis by (cases a) (simp_all add: payload_def Let_def)
qed

lemma applyCandidate_no_payload:
  "payload t = None \<Longrightarrow> applyCandidate env t st = (st, Threw typeError)"
  by (simp add: applyCandidate_def)

text \<open>
  C5. The candidate strategy never reports a failure: whatever the task, the options and
  the state, it either calls the continuation with no arguments, which is success, or
  throws before calling it at all. When the constructor of the candidate throws, the
  exception is written to the console and the continuation is called with success; the
  same when \<^verbatim>\<open>addIceCandidate\<close> of the connection throws.
\<close>

theorem candidate_errors_swallowed:
  "(snd (applyCandidate env t st) = Called [] \<or> snd (applyCandidate env t st) = Threw typeError)
   \<and> (\<forall>d c e. payload t = Some d \<and> getProp d ''candidate'' = Some c \<and> truthy c
          \<and> createIceCandidate env d = Inl e
        \<longrightarrow> applyCandidate env t st = (log (ConsoleWarn e) st, Called []))
   \<and> (\<forall>d c k e. payload t = Some d \<and> getProp d ''candidate'' = Some c \<and> truthy c
          \<and> createIceCandidate env d = Inr k \<and> pcAddIceCandidate env (pc st) k = Some e
        \<longrightarrow> applyCandidate env t st
            = (log (ConsoleWarn e) (log (PcCall ''addIceCandidate'' [k]) st), Called []))"
proof (intro conjI allI impI)
  show "snd (applyCandidate env t st) = Called [] \<or> snd (applyCandidate env t st) = Threw typeError"
    by (simp add: applyCandidate_def Let_def split: option.splits sum.splits)
next
  fix d c e
  assume "payload t = Some d \<and> getProp d ''candidate'' = Some c \<and> truthy c
          \<and> createIceCandidate env d = Inl e"
  then show "applyCandidate env t st = (log (ConsoleWarn e) st, Called [])"
    by (simp add: applyCandidate_def)
next
  fix d c k e
  assume "payload t = Some d \<and> getProp d ''candidate'' = Some c \<and> truthy c
          \<and> createIceCandidate env d = Inr k \<and> pcAddIceCandidate env (pc st) k = Some e"
  then show "applyCandidate env t st
            = (log (ConsoleWarn e) (log (PcCall ''addIceCandidate'' [k]) st), Called [])"
    by (simp add: applyCandidate_def Let_def)
qed

lemma payload_candidateTask: "payload candidateTask = Some hostCandidate"
  by (simp add: payload_def candidateTask_def hostCandidate_def)

lemma marker_hostCandidate:
  "getProp hostCandidate ''candidate'' = Some (JStr ''candidate:1 1 udp 1 10.0.0.1 9 typ host'')"
  by (simp add: hostCandidate_def)

theorem candidate_errors_swallowed_witness:
  "payload candidateTask = Some hostCandidate
   \<and> getProp hostCandidate ''candidate'' = Some (JStr ''candidate:1 1 udp 1 10.0.0.1 9 typ host'')
   \<and> truthy (JStr ''candidate:1 1 udp 1 10.0.0.1 9 typ host'')
   \<and> createIceCandidate envRejecting hostCandidate = Inl (JError ''bad candidate'')
   \<and> applyCandidate envRejecting candidateTask (idle pcConnected)
       = (log (ConsoleWarn (JError ''bad candidate'')) (idle pcConnected), Called [])
   \<and> createIceCandidate envThrowing hostCandidate = Inr hostCandidate
   \<and> pcAddIceCandidate envThrowing (pc (idle pcConnected)) hostCandidate
       = Some (JError ''InvalidStateError'')
   \<and> applyCandidate envThrowing candidateTask (idle pcConnected)
       = (log (ConsoleWarn (JError ''InvalidStateError''))
            (log (PcCall ''addIceCandidate'' [hostCandidate]) (idle pcConnected)), Called [])"
proof -
  have r: "createIceCandidate envRejecting hostCandidate = Inl (JError ''bad candidate'')"
    by (simp add: envRejecting_def)
  have k: "createIceCandidate envThrowing hostCandidate = Inr hostCandidate"
    by (simp add: envThrowing_def envDefault_def)
  have e: "pcAddIceCandidate envThrowing (pc (idle pcConnected)) hostCandidate
       = Some (JError ''InvalidStateError'')"
    by (simp add: envThrowing_def)
  have m: "truthy (JStr ''candidate:1 1 udp 1 10.0.0.1 9 typ host'')"
    by simp
  from candidate_errors_swallowed [of envRejecting candidateTask "idle pcConnected"]
    payload_candidateTask marker_hostCandidate m r
  have one: "applyCandidate envRejecting candidateTask (idle pcConnected)
       = (log (ConsoleWarn (JError ''bad candidate'')) (idle pcConnected), Called [])"
    by blast
  from candidate_errors_swallowed [of envThrowing candidateTask "idle pcConnected"]
    payload_candidateTask marker_hostCandidate m k e
  have two: "applyCandidate envThrowing candidateTask (idle pcConnected)
       = (log (ConsoleWarn (JError ''InvalidStateError''))
            (log (PcCall ''addIceCandidate'' [hostCandidate]) (idle pcConnected)), Called [])"
    by blast
  from one two payload_candidateTask marker_hostCandidate m r k e show ?thesis
    by (intro conjI)
qed

lemma payload_readable: "payload t = Some d \<Longrightarrow> \<exists>c. getProp d ''candidate'' = Some c"
proof -
  assume p: "payload t = Some d"
  have "d \<noteq> Undefined \<and> d \<noteq> Null"
  proof (cases "case args t of [] \<Rightarrow> Undefined | a # _ \<Rightarrow> a")
    case Undefined
    with p show ?thesis by (simp add: payload_def)
  next
    case Null
    with p show ?thesis by (simp add: payload_def)
  next
    case (JBool b)
    with p show ?thesis by (auto simp: payload_def Let_def)
  next
    case (JNum n)
    with p show ?thesis by (auto simp: payload_def Let_def)
  next
    case (JStr s)
    with p show ?thesis by (auto simp: payload_def Let_def)
  next
    case (JError m)
    with p show ?thesis by (auto simp: payload_def Let_def)
  next
    case (JObj ps)
    with p show ?thesis by (auto simp: payload_def Let_def split: if_splits)
  qed
  then show ?thesis by (cases d) simp_all
qed

text \<open>
  C6. The task carries candidate data whose \<^verbatim>\<open>candidate\<close> marker is empty or
  absent (falsy): the strategy calls the continuation with success at once, throws
  nothing, and leaves the state as it was, so that no operation of the connection is
  called and nothing is logged.
\<close>

theorem end_of_candidates:
  assumes "payload t = Some d" and "getProp d ''candidate'' = Some c" and "\<not> truthy c"
  shows "applyCandidate env t st = (st, Called [])
    \<and> effects (fst (applyCandidate env t st)) = effects st"
  using assms by (simp add: applyCandidate_def)

theorem end_of_candidates_witness:
  "payload endOfCandidatesTask = Some (JObj [(''srcElement'', JObj []), (''candidate'', Null)])
   \<and> getProp (JObj [(''srcElement'', JObj []), (''candidate'', Null)]) ''candidate'' = Some Null
   \<and> \<not> truthy Null
   \<and> applyCandidate envDefault endOfCandidatesTask (idle pcConnected)
       = (idle pcConnected, Called [])"
proof -
  have p: "payload endOfCandidatesTask
      = Some (JObj [(''srcElement'', JObj []), (''candidate'', Null)])"
    by (simp add: payload_def endOfCandidatesTask_def)
  have g: "getProp (JObj [(''srcElement'', JObj []), (''candidate'', Null)]) ''candidate''
      = Some Null"
    by simp
  have n: "\<not> truthy Null"
    by simp
  from end_of_candidates [OF p g n, of envDefault "idle pcConnected"] p g n
  show ?thesis by simp
qed

lemma continuation_error:
  assumes "currentTask st = Some t" and "truthy err"
  shows "continuation env (err # rs) st
    = (case fail t of
         None \<Rightarrow> defaultFail [err] (log (ConsoleError err) (st\<lparr>currentTask := None\<rparr>))
       | Some h \<Rightarrow>
           runHandler env h [err] (log (ConsoleError err) (st\<lparr>currentTask := None\<rparr>)))"
  using assms by (simp add: continuation_def Let_def)

text \<open>
  C7. The task's name is not a function of the connection: \<^verbatim>\<open>execMethod\<close> calls the
  continuation at once with the error \<open>cannot call "name" on RTCPeerConnection\<close> and
  calls no operation of the connection. In the poll that dequeues such a task (with the
  default failure sink) the task leaves the queue, the error goes to the console and to
  the \<open>fail\<close> event, the slot is free again, and neither the queue gets the task back
  nor is a timeout set: the task is not retried.
\<close>

theorem unsupported_operation:
  assumes "name t \<notin> set (methods (pc st))"
  shows "execMethod t st = (st, Called [unsupported (name t)])
    \<and> truthy (unsupported (name t))
    \<and> (peek (queue st) = Some t \<and> currentTask st = None \<and> testReady (pc st) t
         \<and> fn t = ExecMethod \<and> fail t = None
       \<longrightarrow> (\<exists>rest. mset rest = mset (tl (queue st))
             \<and> checkQueue env st
                 = (st\<lparr>queue := rest,
                       effects := effects st @ [ConsoleError (unsupported (name t)),
                                                Emit ''fail'' [unsupported (name t)]]\<rparr>,
                    None)))"
proof (intro conjI impI)
  from assms show e: "execMethod t st = (st, Called [unsupported (name t)])"
    by (simp add: execMethod_def)
  show "truthy (unsupported (name t))"
    by (simp add: unsupported_def)
  assume a: "peek (queue st) = Some t \<and> currentTask st = None \<and> testReady (pc st) t
         \<and> fn t = ExecMethod \<and> fail t = None"
  then have ne: "queue st \<noteq> []" and h: "hd (queue st) = t"
    by (auto simp: peek_def split: list.splits)
  from deq_nonempty [OF ne] h obtain rest
    where d: "deq (orderTasks (priorities env) (pc st)) (queue st) = Some (t, rest)"
      and m: "mset rest = mset (tl (queue st))"
    by auto
  let ?st1 = "st\<lparr>currentTask := Some t, queue := rest\<rparr>"
  from assms have "execMethod t ?st1 = (?st1, Called [unsupported (name t)])"
    by (simp add: execMethod_def)
  with a d ne have "checkQueue env st = continuation env [unsupported (name t)] ?st1"
    by (simp add: checkQueue_def Let_def isEmpty_def)
  also have "\<dots> = defaultFail [unsupported (name t)]
      (log (ConsoleError (unsupported (name t))) (?st1\<lparr>currentTask := None\<rparr>))"
    using a \<open>truthy (unsupported (name t))\<close> by (simp add: continuation_error)
  also from a have "?st1\<lparr>currentTask := None\<rparr> = st\<lparr>queue := rest\<rparr>"
    by (intro state.equality) simp_all
  also have "defaultFail [unsupported (name t)]
      (log (ConsoleError (unsupported (name t))) (st\<lparr>queue := rest\<rparr>))
    = (st\<lparr>queue := rest,
          effects := effects st @ [ConsoleError (unsupported (name t)),
                                   Emit ''fail'' [unsupported (name t)]]\<rparr>, None)"
    by (simp add: defaultFail_def log_def)
  finally show "\<exists>rest. mset rest = mset (tl (queue st))
             \<and> checkQueue env st
                 = (st\<lparr>queue := rest,
                       effects := effects st @ [ConsoleError (unsupported (name t)),
                                                Emit ''fail'' [unsupported (name t)]]\<rparr>,
                    None)"
    using m by blast
qed

theorem unsupported_operation_witness:
  "name hangupTask \<notin> set (methods (pc ((idle pcFresh)\<lparr>queue := [hangupTask]\<rparr>)))
   \<and> execMethod hangupTask ((idle pcFresh)\<lparr>queue := [hangupTask]\<rparr>)
       = ((idle pcFresh)\<lparr>queue := [hangupTask]\<rparr>, Called [unsupported ''hangup''])
   \<and> peek (queue ((idle pcFresh)\<lparr>queue := [hangupTask]\<rparr>)) = Some hangupTask
   \<and> currentTask ((idle pcFresh)\<lparr>queue := [hangupTask]\<rparr>) = None
   \<and> testReady (pc ((idle pcFresh)\<lparr>queue := [hangupTask]\<rparr>)) hangupTask
   \<and> fn hangupTask = ExecMethod \<and> fail hangupTask = None
   \<and> checkQueue envDefault ((idle pcFresh)\<lparr>queue := [hangupTask]\<rparr>)
       = ((idle pcFresh)\<lparr>effects := [ConsoleError (unsupported ''hangup''),
                                      Emit ''fail'' [unsupported ''hangup'']]\<rparr>, None)"
proof -
  let ?st = "(idle pcFresh)\<lparr>queue := [hangupTask]\<rparr>"
  have a: "name hangupTask \<notin> set (methods (pc ?st))"
    by (simp add: hangupTask_def idle_def pcFresh_def)
  have b: "peek (queue ?st) = Some hangupTask \<and> currentTask ?st = None
      \<and> testReady (pc ?st) hangupTask \<and> fn hangupTask = ExecMethod \<and> fail hangupTask = None"
    by (simp add: peek_def idle_def hangupTask_def testReady_def)
  have n: "name hangupTask = ''hangup''"
    by (simp add: hangupTask_def)
  from unsupported_operation [OF a, of envDefault] b obtain rest
    where "mset rest = mset (tl (queue ?st))"
      and c: "checkQueue envDefault ?st
                 = (?st\<lparr>queue := rest,
                       effects := effects ?st @ [ConsoleError (unsupported (name hangupTask)),
                                                Emit ''fail'' [unsupported (name hangupTask)]]\<rparr>,
                    None)"
    by blast
  then have "rest = []"
    by (simp add: idle_def)
  with c n have "checkQueue envDefault ?st
       = ((idle pcFresh)\<lparr>effects := [ConsoleError (unsupported ''hangup''),
                                      Emit ''fail'' [unsupported ''hangup'']]\<rparr>, None)"
    by (simp add: idle_def)
  with unsupported_operation [OF a, of envDefault] a b n show ?thesis
    by simp
qed

text \<open>
  C3. The continuation of the running task is called with a truthy error: the slot is
  vacated, the error is written to the console, and the task's fail handler, or without
  one the default sink emitting \<open>fail\<close>, is called with the error on that state. The
  result does not depend on the task's pass handler, which is not called. Nothing else
  is done: with the default sink the timeout and the queue are as before.
\<close>

theorem error_settlement:
  assumes "currentTask st = Some t" and "truthy err"
  shows "continuation env (err # rs) st
      = (case fail t of
           None \<Rightarrow>
             (st\<lparr>currentTask := None,
                 effects := effects st @ [ConsoleError err, Emit ''fail'' [err]]\<rparr>, None)
         | Some h \<Rightarrow>
             runHandler env h [err]
               (st\<lparr>currentTask := None, effects := effects st @ [ConsoleError err]\<rparr>))
    \<and> currentTask (fst (continuation env (err # rs) st)) = None
    \<and> continuation env (err # rs) (st\<lparr>currentTask := Some (t\<lparr>pass := p\<rparr>)\<rparr>)
        = continuation env (err # rs) st
    \<and> (fail t = None \<longrightarrow>
         checkQueueTimer (fst (continuation env (err # rs) st)) = checkQueueTimer st
         \<and> queue (fst (continuation env (err # rs) st)) = queue st)"
proof -
  have eq: "continuation env (err # rs) st
      = (case fail t of
           None \<Rightarrow>
             (st\<lparr>currentTask := None,
                 effects := effects st @ [ConsoleError err, Emit ''fail'' [err]]\<rparr>, None)
         | Some h \<Rightarrow>
             runHandler env h [err]
               (st\<lparr>currentTask := None, effects := effects st @ [ConsoleError err]\<rparr>))"
    using assms
    by (simp add: continuation_def Let_def defaultFail_def log_def split: option.splits)
  obtain st' x where c: "continuation env (err # rs) st = (st', x)"
    by (cases "continuation env (err # rs) st") auto
  from continuation_keeps [OF c] c
  have none: "currentTask (fst (continuation env (err # rs) st)) = None"
    by simp
  have same: "continuation env (err # rs) (st\<lparr>currentTask := Some (t\<lparr>pass := p\<rparr>)\<rparr>)
        = continuation env (err # rs) st"
    using assms by (simp add: continuation_def Let_def)
  from eq none same show ?thesis
    by (simp split: option.splits)
qed

theorem error_settlement_witness:
  "currentTask (running offerTask pcFresh) = Some offerTask \<and> truthy offerError
   \<and> fail offerTask = None
   \<and> continuation envDefault [offerError] (running offerTask pcFresh)
       = ((idle pcFresh)\<lparr>effects := [ConsoleError offerError, Emit ''fail'' [offerError]]\<rparr>,
          None)
   \<and> checkQueueTimer (fst (continuation envDefault [offerError] (running offerTask pcFresh)))
       = None"
proof -
  have a: "currentTask (running offerTask pcFresh) = Some offerTask"
    by (simp add: running_def)
  have b: "truthy offerError"
    by (simp add: offerError_def)
  have f: "fail offerTask = None"
    by (simp add: offerTask_def)
  from error_settlement [OF a b, of envDefault "[]"] a b f show ?thesis
    by (simp add: running_def idle_def)
qed

lemma continuation_success:
  assumes "currentTask st = Some t" and "\<not> truthy err" and "pass t = Some h"
  shows "continuation env (err # rs) st
    = (case runHandler env h rs (st\<lparr>currentTask := None\<rparr>) of
         (st2, Some e) \<Rightarrow> (st2, Some e)
       | (st2, None) \<Rightarrow> (triggerQueueCheck None st2, None))"
  using assms by (simp add: continuation_def Let_def)

text \<open>
  C4. Whenever the continuation of the running task is called, the handlers run on the
  state in which \<^verbatim>\<open>currentTask\<close> is already unset: the fail handler or default sink
  on an error, the pass handler on success; and the slot is empty when the continuation
  returns. A pass handler that enqueues, as the one of \<open>createOffer\<close> does, therefore
  leaves a queue whose next poll starts the new task.
\<close>

theorem slot_vacated_before_handlers:
  assumes "currentTask st = Some t"
  shows "currentTask (st\<lparr>currentTask := None\<rparr>) = None
    \<and> (truthy err \<longrightarrow>
         continuation env (err # rs) st
           = (case fail t of
                None \<Rightarrow> defaultFail [err] (log (ConsoleError err) (st\<lparr>currentTask := None\<rparr>))
              | Some h \<Rightarrow>
                  runHandler env h [err]
                    (log (ConsoleError err) (st\<lparr>currentTask := None\<rparr>))))
    \<and> (\<not> truthy err \<and> pass t = Some h \<longrightarrow>
         continuation env (err # rs) st
           = (case runHandler env h rs (st\<lparr>currentTask := None\<rparr>) of
                (st2, Some e) \<Rightarrow> (st2, Some e)
              | (st2, None) \<Rightarrow> (triggerQueueCheck None st2, None)))
    \<and> currentTask (fst (continuation env as st)) = None
    \<and> (\<not> truthy err \<and> pass t = Some TqSetLocalDescription \<and> queue st = []
         \<and> ''setLocalDescription'' \<in> set (methods (pc st))
       \<longrightarrow> run env [Callback (err # rs), Fire] st
           = st\<lparr>currentTask :=
                   Some \<lparr>args = rs, name = ''setLocalDescription'', fn = ExecMethod,
                         checks = [], pass = Some EmitSdp, fail = None\<rparr>,
                 checkQueueTimer := None,
                 effects := effects st @ [PcCall ''setLocalDescription'' rs]\<rparr>)"
proof (intro conjI impI)
  show "currentTask (st\<lparr>currentTask := None\<rparr>) = None"
    by simp
  show "continuation env (err # rs) st
           = (case fail t of
                None \<Rightarrow> defaultFail [err] (log (ConsoleError err) (st\<lparr>currentTask := None\<rparr>))
              | Some h \<Rightarrow>
                  runHandler env h [err]
                    (log (ConsoleError err) (st\<lparr>currentTask := None\<rparr>)))"
    if "truthy err"
    using assms that by (rule continuation_error)
  show "continuation env (err # rs) st
           = (case runHandler env h rs (st\<lparr>currentTask := None\<rparr>) of
                (st2, Some e) \<Rightarrow> (st2, Some e)
              | (st2, None) \<Rightarrow> (triggerQueueCheck None st2, None))"
    if "\<not> truthy err \<and> pass t = Some h"
    using assms that by (simp add: continuation_success)
  obtain st' x where c: "continuation env as st = (st', x)"
    by (cases "continuation env as st") auto
  from continuation_keeps [OF c] c show "currentTask (fst (continuation env as st)) = None"
    by simp
  let ?new = "\<lparr>args = rs, name = ''setLocalDescription'', fn = ExecMethod,
                         checks = [], pass = Some EmitSdp, fail = None\<rparr>"
  assume a: "\<not> truthy err \<and> pass t = Some TqSetLocalDescription \<and> queue st = []
         \<and> ''setLocalDescription'' \<in> set (methods (pc st))"
  have "taskFor env SetLocalDescription rs = Inr ?new"
    by (simp add: taskFor_def newTask_def)
  from tq_taskFor [OF this] a
  have h: "runHandler env TqSetLocalDescription rs (st\<lparr>currentTask := None\<rparr>)
      = (st\<lparr>currentTask := None, queue := [?new], checkQueueTimer := Some 5\<rparr>, None)"
    by (simp add: enq_empty)
  let ?st1 = "st\<lparr>currentTask := None, queue := [?new], checkQueueTimer := Some 5\<rparr>"
  from assms a h have s1: "step env (Callback (err # rs)) st = ?st1"
    by (simp add: continuation_success triggerQueueCheck_def)
  have r: "testReady (pc st) ?new"
    by (simp add: testReady_def)
  have d: "deq (orderTasks (priorities env) (pc st)) [?new] = Some (?new, [])"
    by (simp add: deq_def)
  from a r d have "checkQueue env (?st1\<lparr>checkQueueTimer := None\<rparr>)
      = (st\<lparr>currentTask := Some ?new, checkQueueTimer := None,
             effects := effects st @ [PcCall ''setLocalDescription'' rs]\<rparr>, None)"
    by (simp add: checkQueue_def Let_def isEmpty_def peek_def execMethod_def log_def)
  with s1 show "run env [Callback (err # rs), Fire] st
           = st\<lparr>currentTask := Some ?new, checkQueueTimer := None,
                 effects := effects st @ [PcCall ''setLocalDescription'' rs]\<rparr>"
    by (simp add: fire_def)
qed

theorem slot_vacated_before_handlers_witness:
  "currentTask (running offerTask pcFresh) = Some offerTask
   \<and> \<not> truthy Null \<and> pass offerTask = Some TqSetLocalDescription
   \<and> queue (running offerTask pcFresh) = []
   \<and> ''setLocalDescription'' \<in> set (methods (pc (running offerTask pcFresh)))
   \<and> continuation envDefault [Null, localOffer] (running offerTask pcFresh)
       = ((idle pcFresh)\<lparr>queue := [localOfferTask], checkQueueTimer := Some 5\<rparr>, None)
   \<and> run envDefault [Callback [Null, localOffer], Fire] (running offerTask pcFresh)
       = (idle pcFresh)\<lparr>currentTask := Some localOfferTask,
            effects := [PcCall ''setLocalDescription'' [localOffer]]\<rparr>"
proof -
  have a: "currentTask (running offerTask pcFresh) = Some offerTask"
    by (simp add: running_def)
  have b: "\<not> truthy Null \<and> pass offerTask = Some TqSetLocalDescription
      \<and> queue (running offerTask pcFresh) = []
      \<and> ''setLocalDescription'' \<in> set (methods (pc (running offerTask pcFresh)))"
    by (simp add: offerTask_def running_def idle_def pcFresh_def)
  note inst = slot_vacated_before_handlers
    [OF a, of Null envDefault "[localOffer]" TqSetLocalDescription]
  from inst b
  have "continuation envDefault [Null, localOffer] (running offerTask pcFresh)
      = (case runHandler envDefault TqSetLocalDescription [localOffer]
                ((running offerTask pcFresh)\<lparr>currentTask := None\<rparr>) of
           (st2, Some e) \<Rightarrow> (st2, Some e)
         | (st2, None) \<Rightarrow> (triggerQueueCheck None st2, None))"
    by blast
  moreover have "runHandler envDefault TqSetLocalDescription [localOffer]
        ((running offerTask pcFresh)\<lparr>currentTask := None\<rparr>)
      = ((idle pcFresh)\<lparr>queue := [localOfferTask], checkQueueTimer := Some 5\<rparr>, None)"
    by (simp add: tq_def enqueue_def newTask_def triggerQueueCheck_def enq_empty
        running_def idle_def localOfferTask_def)
  ultimately have c: "continuation envDefault [Null, localOffer] (running offerTask pcFresh)
       = ((idle pcFresh)\<lparr>queue := [localOfferTask], checkQueueTimer := Some 5\<rparr>, None)"
    by (simp add: triggerQueueCheck_def)
  from inst b
  have "run envDefault [Callback [Null, localOffer], Fire] (running offerTask pcFresh)
      = (running offerTask pcFresh)\<lparr>currentTask :=
                   Some \<lparr>args = [localOffer], name = ''setLocalDescription'', fn = ExecMethod,
                         checks = [], pass = Some EmitSdp, fail = None\<rparr>,
                 checkQueueTimer := None,
                 effects := effects (running offerTask pcFresh)
                   @ [PcCall ''setLocalDescription'' [localOffer]]\<rparr>"
    by blast
  then have d: "run envDefault [Callback [Null, localOffer], Fire] (running offerTask pcFresh)
       = (idle pcFresh)\<lparr>currentTask := Some localOfferTask,
            effects := [PcCall ''setLocalDescription'' [localOffer]]\<rparr>"
    by (simp add: running_def idle_def localOfferTask_def)
  from a b c d show ?thesis
    by simp
qed

end
